theory Spec2Isabelle
  imports Complex_Main "HOL-Library.Word"
begin

section \<open>The LRU cache of pkg/cache/lru\_cache.go\<close>

text \<open>
  The cache is a Go struct holding a map from keys to items, a doubly linked list
  (container/list) of keys ordered by recency, and four atomic 64-bit counters.
  Every exported method takes the mutex for its whole body, so each call is one atomic
  step on the state; the model passes the state explicitly. The clock reading
  \<open>time.Now()\<close> that a method takes is a parameter \<open>now\<close> of the step, in
  nanoseconds; \<open>time.Duration\<close> is a number of nanoseconds as well.
  Clock readings and durations are unbounded integers; the counters are 64-bit words
  and wrap around as \<open>atomic.Uint64\<close> does.

  The reclamation goroutine that the constructor starts runs concurrently with the
  callers and is outside the model (its ticker has the period \<open>ttl / 2\<close>, and
  \<open>time.NewTicker\<close> panics when that is not positive).
\<close>

subsection \<open>container/list\<close>

text \<open>
  A \<open>*list.Element\<close> is an allocated node; its identity is a natural number here, and
  a list is the sequence of its nodes from front to back, each node with the key it
  holds as \<open>Value\<close>. \<open>Remove\<close> and \<open>MoveToFront\<close> do nothing for a node that does
  not belong to the list, as the library checks \<open>e.list == l\<close>.
\<close>

type_synonym elem = nat

type_synonym klist = "(elem \<times> string) list"

definition list_Len :: "klist \<Rightarrow> int" where
  "list_Len l = int (length l)"

definition list_Back :: "klist \<Rightarrow> (elem \<times> string) option" where
  "list_Back l = (if l = [] then None else Some (last l))"

definition list_Remove :: "elem \<Rightarrow> klist \<Rightarrow> klist" where
  "list_Remove e l = filter (\<lambda>p. fst p \<noteq> e) l"

definition list_MoveToFront :: "elem \<Rightarrow> klist \<Rightarrow> klist" where
  "list_MoveToFront e l =
     (case find (\<lambda>p. fst p = e) l of
        None \<Rightarrow> l
      | Some p \<Rightarrow> p # filter (\<lambda>q. fst q \<noteq> e) l)"

definition list_PushFront :: "elem \<Rightarrow> string \<Rightarrow> klist \<Rightarrow> klist" where
  "list_PushFront e v l = (e, v) # l"

subsection \<open>The cache state\<close>

record 'v lruItem =
  key :: string
  val :: 'v
  expiration :: int
  element :: elem

text \<open>
  \<open>next_elem\<close> is the allocator: the identity that the next \<open>PushFront\<close> gives to
  its new node. It is never reset, so a node of a list dropped by \<open>Clear\<close> is
  never taken for a node of the new list.
\<close>

record 'v LRUCache =
  capacity :: int
  ttl :: int
  items :: "string \<rightharpoonup> 'v lruItem"
  lruList :: klist
  hits :: "64 word"
  misses :: "64 word"
  evictions :: "64 word"
  expirations :: "64 word"
  next_elem :: elem

definition NewLRUCache :: "int \<Rightarrow> int \<Rightarrow> 'v LRUCache" where
  "NewLRUCache cap t =
     \<lparr>capacity = cap, ttl = t, items = Map.empty, lruList = [],
      hits = 0, misses = 0, evictions = 0, expirations = 0, next_elem = 0\<rparr>"

subsection \<open>The operations\<close>

definition remove :: "string \<Rightarrow> 'v LRUCache \<Rightarrow> 'v LRUCache" where
  "remove k c =
     (case items c k of
        Some item \<Rightarrow>
          c\<lparr>lruList := list_Remove (element item) (lruList c),
            items := (items c)(k := None)\<rparr>
      | None \<Rightarrow> c)"

definition evictOldest :: "'v LRUCache \<Rightarrow> 'v LRUCache" where
  "evictOldest c =
     (case list_Back (lruList c) of
        Some (e, k) \<Rightarrow> (let c1 = remove k c in c1\<lparr>evictions := evictions c1 + 1\<rparr>)
      | None \<Rightarrow> c)"

text \<open>
  \<open>Get\<close> returns the pair of the Go function as an option: \<open>None\<close> is
  \<open>(nil, false)\<close> and \<open>Some v\<close> is \<open>(v, true)\<close>. The expiry test is
  \<open>time.Now().After(item.expiration)\<close>, a strict comparison.
\<close>

definition Get :: "string \<Rightarrow> int \<Rightarrow> 'v LRUCache \<Rightarrow> 'v option \<times> 'v LRUCache" where
  "Get k now c =
     (case items c k of
        None \<Rightarrow> (None, c\<lparr>misses := misses c + 1\<rparr>)
      | Some item \<Rightarrow>
          if now > expiration item then
            (let c1 = remove k c;
                 c2 = c1\<lparr>expirations := expirations c1 + 1\<rparr>
             in (None, c2\<lparr>misses := misses c2 + 1\<rparr>))
          else
            (Some (val item),
             c\<lparr>lruList := list_MoveToFront (element item) (lruList c),
               hits := hits c + 1\<rparr>))"

definition Set :: "string \<Rightarrow> 'v \<Rightarrow> int \<Rightarrow> 'v LRUCache \<Rightarrow> 'v LRUCache" where
  "Set k v now c =
     (case items c k of
        Some item \<Rightarrow>
          c\<lparr>items := (items c)(k \<mapsto> item\<lparr>val := v, expiration := now + ttl c\<rparr>),
            lruList := list_MoveToFront (element item) (lruList c)\<rparr>
      | None \<Rightarrow>
          (let c1 = (if list_Len (lruList c) \<ge> capacity c then evictOldest c else c);
               e = next_elem c1;
               item = \<lparr>key = k, val = v, expiration = now + ttl c1, element = e\<rparr>
           in c1\<lparr>lruList := list_PushFront e k (lruList c1),
                 items := (items c1)(k \<mapsto> item),
                 next_elem := Suc e\<rparr>))"

definition Delete :: "string \<Rightarrow> 'v LRUCache \<Rightarrow> 'v LRUCache" where
  "Delete k c = remove k c"

definition Clear :: "'v LRUCache \<Rightarrow> 'v LRUCache" where
  "Clear c = c\<lparr>items := Map.empty, lruList := []\<rparr>"

definition Size :: "'v LRUCache \<Rightarrow> int" where
  "Size c = int (card (dom (items c)))"

definition ResetStats :: "'v LRUCache \<Rightarrow> 'v LRUCache" where
  "ResetStats c = c\<lparr>hits := 0, misses := 0, evictions := 0, expirations := 0\<rparr>"

subsection \<open>Sequences of calls\<close>

datatype 'v op = OpGet string int | OpSet string 'v int | OpDelete string | OpClear

fun step :: "'v LRUCache \<Rightarrow> 'v op \<Rightarrow> 'v LRUCache" where
  "step c (OpGet k now) = snd (Get k now c)"
| "step c (OpSet k v now) = Set k v now c"
| "step c (OpDelete k) = Delete k c"
| "step c OpClear = Clear c"

definition run :: "'v LRUCache \<Rightarrow> 'v op list \<Rightarrow> 'v LRUCache" where
  "run c ops = foldl step c ops"

subsection \<open>float64 arithmetic and \<open>Stats\<close>\<close>

text \<open>
  A finite \<open>float64\<close> is a real number with a 53-bit significand. Every
  operation of the Go code that yields a \<open>float64\<close> (the conversion of a
  \<open>uint64\<close>, the division, the multiplication) returns the exact result rounded
  to the nearest such number, ties to the even significand. \<open>float64_round\<close> is
  that rounding: the exponent of \<open>x\<close> is \<open>\<lfloor>log\<^sub>2 |x|\<rfloor>\<close>, not below
  \<open>-1022\<close> (below that the numbers are subnormal and keep the spacing
  \<open>2\<^sup>-\<^sup>1\<^sup>0\<^sup>7\<^sup>4\<close>), and the result is the multiple of the spacing at that exponent
  nearest to \<open>x\<close>. Overflow to infinity is not represented; the values that
  \<open>Stats\<close> computes come from counters below \<open>2\<^sup>6\<^sup>4\<close> and stay far from it
  (the rate is at most a little over \<open>100 * 2\<^sup>6\<^sup>4\<close>, by the error bound below).
  The divisor in \<open>Stats\<close> is never zero, as the guard \<open>total > 0\<close> is on the
  integer it is converted from.
\<close>

definition round_half_even :: "real \<Rightarrow> int" where
  "round_half_even y =
     (let f = \<lfloor>y\<rfloor>; d = y - of_int f
      in if d < 1 / 2 then f
         else if d > 1 / 2 then f + 1
         else if even f then f else f + 1)"

definition float64_exponent :: "real \<Rightarrow> int" where
  "float64_exponent x = max \<lfloor>log 2 \<bar>x\<bar>\<rfloor> (- 1022)"

definition float64_ulp :: "real \<Rightarrow> real" where
  "float64_ulp x = 2 powr of_int (float64_exponent x - 52)"

definition float64_round :: "real \<Rightarrow> real" where
  "float64_round x =
     (if x = 0 then 0
      else of_int (round_half_even (x / float64_ulp x)) * float64_ulp x)"

definition float64_of_uint64 :: "64 word \<Rightarrow> real" where
  "float64_of_uint64 w = float64_round (real (unat w))"

definition float64_div :: "real \<Rightarrow> real \<Rightarrow> real" where
  "float64_div a b = float64_round (a / b)"

definition float64_mul :: "real \<Rightarrow> real \<Rightarrow> real" where
  "float64_mul a b = float64_round (a * b)"

text \<open>
  \<open>Stats\<close> reads the two counters, adds them as \<open>uint64\<close> values (the sum wraps
  around), and computes the rate only when the sum is positive; the variable
  \<open>hitRate\<close> is zero otherwise. The field \<open>Size\<close> of the Go struct is
  \<open>Size'\<close> here.
\<close>

record CacheStats =
  Hits :: "64 word"
  Misses :: "64 word"
  HitRate :: real
  Evictions :: "64 word"
  Expirations :: "64 word"
  Size' :: int
  Capacity :: int

definition Stats :: "'v LRUCache \<Rightarrow> CacheStats" where
  "Stats c =
     (let h = hits c;
          m = misses c;
          total = h + m;
          hitRate = (if total > 0
                     then float64_mul (float64_div (float64_of_uint64 h) (float64_of_uint64 total)) 100
                     else 0)
      in \<lparr>Hits = h, Misses = m, HitRate = hitRate,
          Evictions = evictions c, Expirations = expirations c,
          Size' = int (card (dom (items c))), Capacity = capacity c\<rparr>)"

subsection \<open>The invariant linking the map and the list\<close>

text \<open>
  Nodes are distinct and allocated; every node holds the key of an item whose
  \<open>element\<close> is that node; and the keys of the map are the keys on the list.
\<close>

definition node_ok :: "'v LRUCache \<Rightarrow> elem \<times> string \<Rightarrow> bool" where
  "node_ok c p =
     (fst p < next_elem c \<and>
      (case items c (snd p) of
         None \<Rightarrow> False
       | Some item \<Rightarrow> element item = fst p \<and> key item = snd p))"

definition cache_wf :: "'v LRUCache \<Rightarrow> bool" where
  "cache_wf c \<longleftrightarrow>
     distinct (map fst (lruList c)) \<and>
     list_all (node_ok c) (lruList c) \<and>
     dom (items c) = set (map snd (lruList c))"

text \<open>The capacity bound, stated on the list as \<open>Set\<close> tests it.\<close>

definition within_capacity :: "'v LRUCache \<Rightarrow> bool" where
  "within_capacity c \<longleftrightarrow> list_Len (lruList c) \<le> capacity c"

subsection \<open>Concrete caches used as examples\<close>

text \<open>
  A cache of capacity 2 and TTL 10 in which the key \<open>a\<close> was set at time 0, so that
  its entry expires at time 10.
\<close>

definition boundary_cache :: "nat LRUCache" where
  "boundary_cache = Set ''a'' 1 0 (NewLRUCache 2 10)"

text \<open>
  The same cache after \<open>b\<close> was set at time 1: it holds two entries, as many as
  its capacity.
\<close>

definition full_cache :: "nat LRUCache" where
  "full_cache = Set ''b'' 2 1 (Set ''a'' 1 0 (NewLRUCache 2 10))"

text \<open>
  The calls of \<open>TestLRUCache_LRUOrder\<close> up to the insertion of the third key, on
  a cache of capacity 2, for any three keys, values, TTL and clock readings.
\<close>

definition lru_order_run :: "string \<Rightarrow> string \<Rightarrow> string \<Rightarrow> 'v \<Rightarrow> 'v \<Rightarrow> 'v \<Rightarrow> int \<Rightarrow> int \<Rightarrow> int \<Rightarrow> int \<Rightarrow> int \<Rightarrow> 'v LRUCache" where
  "lru_order_run a b c v1 v2 v3 t t1 t2 t3 t4 =
     run (NewLRUCache 2 t) [OpSet a v1 t1, OpSet b v2 t2, OpGet a t3, OpSet c v3 t4]"

text \<open>
  A cache after one hit and two misses.
\<close>

definition thirds_cache :: "nat LRUCache" where
  "thirds_cache =
     run (NewLRUCache 2 60) [OpSet ''a'' 1 0, OpGet ''a'' 1, OpGet ''b'' 2, OpGet ''c'' 3]"

text \<open>
  A cache state whose counters add up to \<open>2\<^sup>6\<^sup>4\<close>.
\<close>

definition wrapped_cache :: "nat LRUCache" where
  "wrapped_cache = (NewLRUCache 2 60)\<lparr>hits := 18446744073709551615, misses := 1\<rparr>"

text \<open>
  The calls of \<open>TestLRUCache_Stats\<close> before it reads the statistics: three hits and
  one miss.
\<close>

definition test_stats_cache :: "nat LRUCache" where
  "test_stats_cache =
     run (NewLRUCache 10 60)
       [OpSet ''key1'' 1 0, OpSet ''key2'' 2 0, OpGet ''key1'' 1, OpGet ''key1'' 2,
        OpGet ''key2'' 3, OpGet ''nonexistent'' 4]"

section \<open>Properties\<close>

subsection \<open>Facts about the invariant\<close>

lemma wf_nodeD:
  assumes "cache_wf c" "p \<in> set (lruList c)"
  shows "\<exists>it. items c (snd p) = Some it \<and> element it = fst p \<and> key it = snd p"
    and "fst p < next_elem c"
  using assms by (auto simp: cache_wf_def list_all_iff node_ok_def split: option.splits)

lemma wf_itemD:
  assumes "cache_wf c" "items c k = Some it"
  shows "(element it, k) \<in> set (lruList c)" and "key it = k"
proof -
  from assms have "k \<in> set (map snd (lruList c))" by (auto simp: cache_wf_def)
  then obtain p where p: "p \<in> set (lruList c)" "snd p = k" by auto
  from wf_nodeD(1)[OF assms(1) p(1)] p(2) assms(2) have "element it = fst p" "key it = k" by auto
  with p show "(element it, k) \<in> set (lruList c)" "key it = k" by (cases p; auto)+
qed

lemma wf_fst_inj:
  assumes "cache_wf c" "p \<in> set (lruList c)" "q \<in> set (lruList c)" "fst p = fst q"
  shows "p = q"
proof -
  from assms(1) have "inj_on fst (set (lruList c))" by (simp add: cache_wf_def distinct_map)
  with assms(2-4) show ?thesis by (auto dest: inj_onD)
qed

lemma wf_snd_inj:
  assumes "cache_wf c" "p \<in> set (lruList c)" "q \<in> set (lruList c)" "snd p = snd q"
  shows "p = q"
  using wf_nodeD(1)[OF assms(1,2)] wf_nodeD(1)[OF assms(1,3)] assms(4) wf_fst_inj[OF assms(1-3)]
  by auto

lemma wf_distinct_keys:
  assumes "cache_wf c" shows "distinct (map snd (lruList c))"
proof -
  from assms have "distinct (lruList c)" by (simp add: cache_wf_def distinct_map)
  moreover have "inj_on snd (set (lruList c))"
    by (rule inj_onI) (rule wf_snd_inj[OF assms])
  ultimately show ?thesis by (simp add: distinct_map)
qed

lemma wf_Size:
  assumes "cache_wf c" shows "Size c = list_Len (lruList c)"
proof -
  have "card (dom (items c)) = card (set (map snd (lruList c)))" using assms by (simp add: cache_wf_def)
  also have "\<dots> = length (map snd (lruList c))" by (rule distinct_card[OF wf_distinct_keys[OF assms]])
  finally show ?thesis by (simp add: Size_def list_Len_def)
qed

lemma wf_New: "cache_wf (NewLRUCache cap t)"
  by (simp add: cache_wf_def NewLRUCache_def)

lemma wf_Clear: "cache_wf (Clear c)"
  by (simp add: cache_wf_def Clear_def)

subsection \<open>Facts about container/list\<close>

lemma node_unique:
  assumes "distinct (map fst l)" "(e, k) \<in> set l" "p \<in> set l" "fst p = e"
  shows "p = (e, k)"
proof -
  from assms(1) have "inj_on fst (set l)" by (simp add: distinct_map)
  from inj_onD[OF this _ assms(3) assms(2)] assms(4) show ?thesis by simp
qed

lemma find_node:
  "distinct (map fst l) \<Longrightarrow> (e, k) \<in> set l \<Longrightarrow> find (\<lambda>p. fst p = e) l = Some (e, k)"
proof (induction l)
  case Nil
  then show ?case by simp
next
  case (Cons p l)
  show ?case
  proof (cases "fst p = e")
    case True
    have "p = (e, k)" by (rule node_unique[OF Cons.prems(1,2) _ True]) simp
    with True show ?thesis by simp
  next
    case False
    with Cons.prems have "(e, k) \<in> set l" "distinct (map fst l)" by auto
    with Cons.IH False show ?thesis by simp
  qed
qed

lemma length_Remove:
  "distinct (map fst l) \<Longrightarrow> (e, k) \<in> set l \<Longrightarrow> length (list_Remove e l) = length l - 1"
proof (induction l)
  case Nil
  then show ?case by simp
next
  case (Cons p l)
  show ?case
  proof (cases "fst p = e")
    case True
    from Cons.prems(1) have "fst p \<notin> fst ` set l" by simp
    with True have "\<forall>q\<in>set l. fst q \<noteq> e" by blast
    then have "filter (\<lambda>q. fst q \<noteq> e) l = l" by (simp add: filter_id_conv)
    with True show ?thesis by (simp add: list_Remove_def)
  next
    case False
    with Cons.prems have "(e, k) \<in> set l" "distinct (map fst l)" by auto
    with Cons.IH have "length (list_Remove e l) = length l - 1" by simp
    moreover from \<open>(e, k) \<in> set l\<close> have "length l > 0" by (cases l) auto
    ultimately show ?thesis using False by (simp add: list_Remove_def)
  qed
qed

lemma MoveToFront_node:
  "distinct (map fst l) \<Longrightarrow> (e, k) \<in> set l \<Longrightarrow>
   list_MoveToFront e l = (e, k) # list_Remove e l"
  by (simp add: list_MoveToFront_def list_Remove_def find_node)

lemma MoveToFront_absent:
  "e \<notin> fst ` set l \<Longrightarrow> list_MoveToFront e l = l"
proof -
  assume "e \<notin> fst ` set l"
  then have "find (\<lambda>p. fst p = e) l = None" by (force simp: find_None_iff)
  then show ?thesis by (simp add: list_MoveToFront_def)
qed

lemma set_Remove_node:
  assumes "distinct (map fst l)" "(e, k) \<in> set l"
  shows "set (list_Remove e l) = set l - {(e, k)}"
proof (rule set_eqI)
  fix p
  have u: "p \<in> set l \<Longrightarrow> fst p = e \<Longrightarrow> p = (e, k)"
    by (rule node_unique[OF assms])
  have s: "p \<in> set (list_Remove e l) \<longleftrightarrow> p \<in> set l \<and> fst p \<noteq> e"
    by (simp add: list_Remove_def)
  show "p \<in> set (list_Remove e l) \<longleftrightarrow> p \<in> set l - {(e, k)}"
  proof (cases "p = (e, k)")
    case True
    then show ?thesis unfolding s by simp
  next
    case False
    with u show ?thesis unfolding s by blast
  qed
qed

lemma set_MoveToFront:
  assumes "distinct (map fst l)" shows "set (list_MoveToFront e l) = set l"
proof (cases "e \<in> fst ` set l")
  case True
  then obtain k where k: "(e, k) \<in> set l" by auto
  with MoveToFront_node[OF assms k] set_Remove_node[OF assms k] show ?thesis by auto
next
  case False
  then show ?thesis by (simp add: MoveToFront_absent)
qed

lemma distinct_MoveToFront:
  assumes "distinct (map fst l)" shows "distinct (map fst (list_MoveToFront e l))"
proof (cases "e \<in> fst ` set l")
  case True
  then obtain k where k: "(e, k) \<in> set l" by auto
  have "e \<notin> fst ` set (list_Remove e l)" by (auto simp: list_Remove_def)
  with MoveToFront_node[OF assms k] assms show ?thesis
    by (simp add: list_Remove_def distinct_map_filter)
next
  case False
  with assms show ?thesis by (simp add: MoveToFront_absent)
qed

lemma length_MoveToFront:
  assumes "distinct (map fst l)" shows "length (list_MoveToFront e l) = length l"
proof (cases "e \<in> fst ` set l")
  case True
  then obtain k where k: "(e, k) \<in> set l" by auto
  then have "length l > 0" by (cases l) auto
  with length_Remove[OF assms k] MoveToFront_node[OF assms k] show ?thesis by simp
next
  case False
  then show ?thesis by (simp add: MoveToFront_absent)
qed

subsection \<open>Every operation preserves the invariant\<close>

lemma cache_wf_iff:
  "cache_wf c \<longleftrightarrow>
     distinct (map fst (lruList c)) \<and>
     (\<forall>p\<in>set (lruList c). fst p < next_elem c \<and>
        (\<exists>it. items c (snd p) = Some it \<and> element it = fst p \<and> key it = snd p)) \<and>
     dom (items c) = snd ` set (lruList c)"
  by (auto simp: cache_wf_def list_all_iff node_ok_def split: option.splits)

lemma cache_wf_counters:
  "lruList c' = lruList c \<Longrightarrow> items c' = items c \<Longrightarrow> next_elem c' = next_elem c \<Longrightarrow>
   cache_wf c' = cache_wf c"
  by (simp add: cache_wf_iff)

lemma wf_MoveToFront:
  assumes "cache_wf c"
  shows "cache_wf (c\<lparr>lruList := list_MoveToFront e (lruList c)\<rparr>)"
proof -
  from assms have d: "distinct (map fst (lruList c))" by (simp add: cache_wf_iff)
  show ?thesis using assms
    by (simp add: cache_wf_iff set_MoveToFront[OF d] distinct_MoveToFront[OF d])
qed

lemma wf_remove:
  assumes "cache_wf c" shows "cache_wf (remove k c)"
proof (cases "items c k")
  case None
  with assms show ?thesis by (simp add: remove_def)
next
  case (Some it)
  let ?l = "lruList c"
  from assms have d: "distinct (map fst ?l)" by (simp add: cache_wf_iff)
  have node: "(element it, k) \<in> set ?l" by (rule wf_itemD(1)[OF assms Some])
  have set': "set (list_Remove (element it) ?l) = set ?l - {(element it, k)}"
    by (rule set_Remove_node[OF d node])
  have other: "snd p \<noteq> k" if "p \<in> set ?l" "p \<noteq> (element it, k)" for p
    using wf_snd_inj[OF assms that(1) node] that(2) by auto
  have "distinct (map fst (list_Remove (element it) ?l))"
    using d by (simp add: list_Remove_def distinct_map_filter)
  moreover have "\<forall>p\<in>set (list_Remove (element it) ?l). fst p < next_elem c \<and>
        (\<exists>it'. ((items c)(k := None)) (snd p) = Some it' \<and> element it' = fst p \<and> key it' = snd p)"
    using assms other by (auto simp: set' cache_wf_iff)
  moreover have "dom ((items c)(k := None)) = snd ` set (list_Remove (element it) ?l)"
  proof -
    from assms have "dom (items c) = snd ` set ?l" by (simp add: cache_wf_iff)
    moreover have "snd ` (set ?l - {(element it, k)}) = snd ` set ?l - {k}"
      using other node by force
    ultimately show ?thesis by (simp add: set')
  qed
  ultimately show ?thesis using Some by (simp add: remove_def cache_wf_iff)
qed

lemma length_remove:
  assumes "cache_wf c" "items c k = Some it"
  shows "length (lruList (remove k c)) = length (lruList c) - 1"
proof -
  from assms have d: "distinct (map fst (lruList c))" by (simp add: cache_wf_iff)
  from length_Remove[OF d wf_itemD(1)[OF assms]] assms(2) show ?thesis
    by (simp add: remove_def)
qed

lemma wf_evictOldest:
  assumes "cache_wf c" shows "cache_wf (evictOldest c)"
proof (cases "list_Back (lruList c)")
  case None
  with assms show ?thesis by (simp add: evictOldest_def)
next
  case (Some p)
  obtain e k where p: "p = (e, k)" by (cases p)
  have "cache_wf ((remove k c)\<lparr>evictions := evictions (remove k c) + 1\<rparr>) = cache_wf (remove k c)"
    by (rule cache_wf_counters) simp_all
  with wf_remove[OF assms, of k] Some p show ?thesis by (simp add: evictOldest_def Let_def)
qed

lemma length_evictOldest:
  assumes "cache_wf c" "lruList c \<noteq> []"
  shows "length (lruList (evictOldest c)) = length (lruList c) - 1"
proof -
  obtain e k where p: "last (lruList c) = (e, k)" by (cases "last (lruList c)")
  with assms(2) have "(e, k) \<in> set (lruList c)" using last_in_set by metis
  from wf_nodeD(1)[OF assms(1) this] obtain it where "items c k = Some it" by auto
  from length_remove[OF assms(1) this] p assms(2) show ?thesis
    by (simp add: evictOldest_def list_Back_def Let_def)
qed

lemma remove_frame:
  "capacity (remove k c) = capacity c" "ttl (remove k c) = ttl c"
  "next_elem (remove k c) = next_elem c"
  "hits (remove k c) = hits c" "misses (remove k c) = misses c"
  "evictions (remove k c) = evictions c" "expirations (remove k c) = expirations c"
  by (simp_all add: remove_def split: option.splits)

lemma remove_items: "items (remove k c) = (items c)(k := None)"
  by (auto simp: remove_def split: option.splits)

lemma evictOldest_frame:
  "capacity (evictOldest c) = capacity c" "ttl (evictOldest c) = ttl c"
  "next_elem (evictOldest c) = next_elem c"
  "hits (evictOldest c) = hits c" "misses (evictOldest c) = misses c"
  "expirations (evictOldest c) = expirations c"
  by (simp_all add: evictOldest_def Let_def remove_frame split: option.splits prod.splits)

lemma evictOldest_items_None:
  "items c k = None \<Longrightarrow> items (evictOldest c) k = None"
  by (simp add: evictOldest_def Let_def remove_items split: option.splits prod.splits)

lemma wf_insert:
  assumes "cache_wf c" "items c k = None"
  shows "cache_wf (c\<lparr>lruList := list_PushFront (next_elem c) k (lruList c),
            items := (items c)(k \<mapsto> \<lparr>key = k, val = v, expiration = x, element = next_elem c\<rparr>),
            next_elem := Suc (next_elem c)\<rparr>)"
proof -
  from assms(1) have fresh: "\<forall>p\<in>set (lruList c). fst p < next_elem c" by (simp add: cache_wf_iff)
  then have "next_elem c \<notin> fst ` set (lruList c)" by auto
  moreover from assms have "\<forall>p\<in>set (lruList c). snd p \<noteq> k" by (auto simp: cache_wf_iff)
  ultimately show ?thesis using assms(1) fresh
    by (auto simp: cache_wf_iff list_PushFront_def less_Suc_eq)
qed

lemma wf_update:
  assumes "cache_wf c" "items c k = Some it"
  shows "cache_wf (c\<lparr>items := (items c)(k \<mapsto> it\<lparr>val := v, expiration := x\<rparr>)\<rparr>)"
proof -
  from wf_itemD(2)[OF assms] have key: "key it = k" .
  have "\<exists>it'. ((items c)(k \<mapsto> it\<lparr>val := v, expiration := x\<rparr>)) (snd p) = Some it' \<and>
          element it' = fst p \<and> key it' = snd p"
    if "p \<in> set (lruList c)" for p
  proof (cases "snd p = k")
    case True
    with wf_nodeD(1)[OF assms(1) that] assms(2) show ?thesis by auto
  next
    case False
    with wf_nodeD(1)[OF assms(1) that] show ?thesis by auto
  qed
  moreover have "dom ((items c)(k \<mapsto> it\<lparr>val := v, expiration := x\<rparr>)) = dom (items c)"
    using assms(2) by auto
  ultimately show ?thesis using assms(1) by (simp add: cache_wf_iff)
qed

lemma wf_Set:
  assumes "cache_wf c" shows "cache_wf (Set k v now c)"
proof (cases "items c k")
  case (Some it)
  let ?c1 = "c\<lparr>items := (items c)(k \<mapsto> it\<lparr>val := v, expiration := now + ttl c\<rparr>)\<rparr>"
  have "cache_wf ?c1" by (rule wf_update[OF assms Some])
  from wf_MoveToFront[OF this, of "element it"] Some show ?thesis by (simp add: Set_def)
next
  case None
  define c1 where "c1 = (if list_Len (lruList c) \<ge> capacity c then evictOldest c else c)"
  have "cache_wf c1" using assms by (simp add: c1_def wf_evictOldest)
  moreover have "items c1 k = None" using None by (simp add: c1_def evictOldest_items_None)
  ultimately have "cache_wf (c1\<lparr>lruList := list_PushFront (next_elem c1) k (lruList c1),
            items := (items c1)(k \<mapsto> \<lparr>key = k, val = v, expiration = now + ttl c1, element = next_elem c1\<rparr>),
            next_elem := Suc (next_elem c1)\<rparr>)" by (rule wf_insert)
  then show ?thesis using None by (simp add: Set_def Let_def c1_def)
qed

lemma wf_Get:
  assumes "cache_wf c" shows "cache_wf (snd (Get k now c))"
proof (cases "items c k")
  case None
  have "cache_wf (c\<lparr>misses := misses c + 1\<rparr>) = cache_wf c" by (rule cache_wf_counters) simp_all
  with assms None show ?thesis by (simp add: Get_def)
next
  case (Some it)
  show ?thesis
  proof (cases "now > expiration it")
    case True
    let ?c1 = "remove k c"
    have "cache_wf (?c1\<lparr>expirations := expirations ?c1 + 1, misses := misses ?c1 + 1\<rparr>) = cache_wf ?c1"
      by (rule cache_wf_counters) simp_all
    with wf_remove[OF assms, of k] Some True show ?thesis by (simp add: Get_def Let_def)
  next
    case False
    let ?c1 = "c\<lparr>lruList := list_MoveToFront (element it) (lruList c)\<rparr>"
    have "cache_wf (?c1\<lparr>hits := hits c + 1\<rparr>) = cache_wf ?c1"
      by (rule cache_wf_counters) simp_all
    with wf_MoveToFront[OF assms, of "element it"] Some False show ?thesis by (simp add: Get_def)
  qed
qed

lemma wf_step: "cache_wf c \<Longrightarrow> cache_wf (step c x)"
  by (cases x) (simp_all add: wf_Get wf_Set wf_remove wf_Clear Delete_def)

lemma wf_run: "cache_wf c \<Longrightarrow> cache_wf (run c ops)"
  unfolding run_def by (induction ops arbitrary: c) (simp_all add: wf_step)

subsection \<open>The capacity bound\<close>

lemma capacity_step: "capacity (step c x) = capacity c"
  by (cases x)
     (simp_all add: Get_def Set_def Delete_def Clear_def Let_def remove_frame evictOldest_frame
        split: option.splits)

lemma capacity_run: "capacity (run c ops) = capacity c"
  unfolding run_def by (induction ops arbitrary: c) (simp_all add: capacity_step)

lemma bound_remove:
  assumes "within_capacity c" shows "within_capacity (remove k c)"
proof -
  have "length (lruList (remove k c)) \<le> length (lruList c)"
    by (simp add: remove_def list_Remove_def split: option.splits)
  with assms show ?thesis by (simp add: within_capacity_def list_Len_def remove_frame)
qed

lemma bound_Set:
  assumes "cache_wf c" "within_capacity c" "0 < capacity c"
  shows "within_capacity (Set k v now c)"
proof (cases "items c k")
  case (Some it)
  from assms have d: "distinct (map fst (lruList c))" by (simp add: cache_wf_iff)
  from assms(2) Some show ?thesis
    by (simp add: Set_def within_capacity_def list_Len_def length_MoveToFront[OF d])
next
  case None
  show ?thesis
  proof (cases "list_Len (lruList c) \<ge> capacity c")
    case True
    with assms(3) have ne: "lruList c \<noteq> []" by (auto simp: list_Len_def)
    then have "length (lruList c) > 0" by simp
    with length_evictOldest[OF assms(1) ne] assms(2) None True show ?thesis
      by (simp add: Set_def Let_def within_capacity_def list_Len_def list_PushFront_def
            evictOldest_frame)
  next
    case False
    with None show ?thesis
      by (simp add: Set_def Let_def within_capacity_def list_Len_def list_PushFront_def)
  qed
qed

lemma bound_Get:
  assumes "cache_wf c" "within_capacity c"
  shows "within_capacity (snd (Get k now c))"
proof -
  from assms have d: "distinct (map fst (lruList c))" by (simp add: cache_wf_iff)
  from bound_remove[OF assms(2), of k] assms(2) show ?thesis
    by (simp add: Get_def Let_def within_capacity_def list_Len_def remove_frame
          length_MoveToFront[OF d] split: option.splits)
qed

lemma bound_step:
  assumes "cache_wf c" "within_capacity c" "0 < capacity c"
  shows "within_capacity (step c x)"
proof (cases x)
  case (OpGet k now)
  then show ?thesis using bound_Get[OF assms(1,2)] by simp
next
  case (OpSet k v now)
  then show ?thesis using bound_Set[OF assms] by simp
next
  case (OpDelete k)
  then show ?thesis using bound_remove[OF assms(2)] by (simp add: Delete_def)
next
  case OpClear
  with assms(3) show ?thesis by (simp add: Clear_def within_capacity_def list_Len_def)
qed

lemma bound_run:
  "cache_wf c \<Longrightarrow> within_capacity c \<Longrightarrow> 0 < capacity c \<Longrightarrow> within_capacity (run c ops)"
  unfolding run_def
  by (induction ops arbitrary: c) (simp_all add: wf_step bound_step capacity_step)

text \<open>
  Claim C2. For every cache constructed with a positive capacity, after any finite
  sequence of Get, Set, Delete and Clear calls, \<open>Size()\<close> is at most the capacity.
\<close>

theorem capacity_bound:
  fixes ops :: "'v op list"
  assumes "0 < cap"
  shows "Size (run (NewLRUCache cap t) ops) \<le> cap"
proof -
  let ?c0 = "NewLRUCache cap t :: 'v LRUCache"
  have cap0: "capacity ?c0 = cap" by (simp add: NewLRUCache_def)
  have "within_capacity ?c0"
    using assms by (simp add: within_capacity_def NewLRUCache_def list_Len_def)
  with assms cap0 have "within_capacity (run ?c0 ops)"
    by (intro bound_run wf_New) simp_all
  moreover have "Size (run ?c0 ops) = list_Len (lruList (run ?c0 ops))"
    by (rule wf_Size[OF wf_run[OF wf_New]])
  ultimately show ?thesis by (simp add: within_capacity_def capacity_run cap0)
qed

theorem capacity_bound_witness:
  "(0::int) < 2 \<and>
   Size (run (NewLRUCache 2 60) [OpSet ''a'' (1::nat) 0, OpSet ''b'' 2 1, OpGet ''a'' 2, OpSet ''c'' 3 3, OpDelete ''a'', OpClear]) \<le> 2"
  using capacity_bound[of 2 60 "[OpSet ''a'' (1::nat) 0, OpSet ''b'' 2 1, OpGet ''a'' 2, OpSet ''c'' 3 3, OpDelete ''a'', OpClear]"]
  by simp

subsection \<open>Expiry found by a read\<close>

lemma filter_key_node:
  assumes "cache_wf c" "items c k = Some it"
  shows "list_Remove (element it) (lruList c) = filter (\<lambda>p. snd p \<noteq> k) (lruList c)"
  unfolding list_Remove_def
proof (rule filter_cong[OF refl])
  fix p assume p: "p \<in> set (lruList c)"
  have node: "(element it, k) \<in> set (lruList c)" by (rule wf_itemD(1)[OF assms])
  show "(fst p \<noteq> element it) = (snd p \<noteq> k)"
  proof (cases "p = (element it, k)")
    case True
    then show ?thesis by simp
  next
    case False
    with wf_fst_inj[OF assms(1) p node] wf_snd_inj[OF assms(1) p node] show ?thesis by auto
  qed
qed

text \<open>
  Claim C1, amended. For every cache whose map and list agree (the invariant above, which
  holds after any sequence of calls) and every key present in the entry store, if at the
  moment \<open>Get(key)\<close> runs the current time is strictly later than the entry's
  expiration, then \<open>Get\<close> removes the entry from the map and its node from the
  list (the other nodes keep their order), adds one to the expirations counter and one to
  the misses counter, leaves hits and evictions as they are, and returns not-found.
\<close>

theorem Get_expired:
  assumes "cache_wf c" "items c k = Some it" "now > expiration it"
  shows "fst (Get k now c) = None \<and>
         items (snd (Get k now c)) = (items c)(k := None) \<and>
         lruList (snd (Get k now c)) = filter (\<lambda>p. snd p \<noteq> k) (lruList c) \<and>
         expirations (snd (Get k now c)) = expirations c + 1 \<and>
         misses (snd (Get k now c)) = misses c + 1 \<and>
         hits (snd (Get k now c)) = hits c \<and>
         evictions (snd (Get k now c)) = evictions c"
proof -
  have "lruList (remove k c) = filter (\<lambda>p. snd p \<noteq> k) (lruList c)"
    using assms(2) filter_key_node[OF assms(1,2)] by (simp add: remove_def)
  with assms(2,3) show ?thesis
    by (simp add: Get_def Let_def remove_frame remove_items)
qed

lemma boundary_cache_eq:
  "boundary_cache =
     \<lparr>capacity = 2, ttl = 10,
      items = [''a'' \<mapsto> \<lparr>key = ''a'', val = 1, expiration = 10, element = 0\<rparr>],
      lruList = [(0, ''a'')],
      hits = 0, misses = 0, evictions = 0, expirations = 0, next_elem = Suc 0\<rparr>"
  by (simp add: boundary_cache_def Set_def NewLRUCache_def Let_def list_Len_def list_PushFront_def)

theorem Get_expired_witness:
  "cache_wf boundary_cache \<and>
   items boundary_cache ''a'' = Some \<lparr>key = ''a'', val = 1, expiration = 10, element = 0\<rparr> \<and>
   (11::int) > expiration \<lparr>key = ''a'', val = 1::nat, expiration = 10, element = 0\<rparr> \<and>
   fst (Get ''a'' 11 boundary_cache) = None \<and>
   items (snd (Get ''a'' 11 boundary_cache)) = (items boundary_cache)(''a'' := None) \<and>
   lruList (snd (Get ''a'' 11 boundary_cache)) = filter (\<lambda>p. snd p \<noteq> ''a'') (lruList boundary_cache) \<and>
   expirations (snd (Get ''a'' 11 boundary_cache)) = expirations boundary_cache + 1 \<and>
   misses (snd (Get ''a'' 11 boundary_cache)) = misses boundary_cache + 1 \<and>
   hits (snd (Get ''a'' 11 boundary_cache)) = hits boundary_cache \<and>
   evictions (snd (Get ''a'' 11 boundary_cache)) = evictions boundary_cache"
proof -
  have w: "cache_wf boundary_cache"
    by (simp add: boundary_cache_eq cache_wf_def node_ok_def)
  have i: "items boundary_cache ''a'' = Some \<lparr>key = ''a'', val = 1, expiration = 10, element = 0\<rparr>"
    by (simp add: boundary_cache_eq)
  have e: "(11::int) > expiration \<lparr>key = ''a'', val = 1::nat, expiration = 10, element = 0\<rparr>"
    by simp
  from Get_expired[OF w i e] w i e show ?thesis by blast
qed

text \<open>
  Claim C1 as first stated also covers the instant at which the current time equals the
  expiration. There \<open>After\<close> is false: the entry set at time 0 with TTL 10 is read
  at time 10, the read is a hit, and the entry stays.
\<close>

theorem Get_at_expiration_counterexample:
  "map_option expiration (items boundary_cache ''a'') = Some 10 \<and>
   fst (Get ''a'' 10 boundary_cache) = Some 1 \<and>
   items (snd (Get ''a'' 10 boundary_cache)) ''a'' = items boundary_cache ''a'' \<and>
   lruList (snd (Get ''a'' 10 boundary_cache)) = [(0, ''a'')] \<and>
   expirations (snd (Get ''a'' 10 boundary_cache)) = expirations boundary_cache \<and>
   misses (snd (Get ''a'' 10 boundary_cache)) = misses boundary_cache \<and>
   hits (snd (Get ''a'' 10 boundary_cache)) = hits boundary_cache + 1"
  by (simp add: boundary_cache_eq Get_def list_MoveToFront_def)

subsection \<open>Updating, deleting, clearing\<close>

text \<open>
  Claim C6. For every cache whose map and list agree (the invariant above, which holds
  after any sequence of calls) and every key already present in the entry store,
  \<open>Set(key, value)\<close> overwrites the stored value, sets the expiration to
  \<open>now + ttl\<close> and moves the entry's node to the front of the list, the other
  nodes keeping their order; \<open>Size()\<close> and the evictions counter (and the other
  counters) are unchanged. Nothing is assumed about the capacity, so this holds for a
  full cache as well.
\<close>

theorem Set_existing:
  assumes "cache_wf c" "items c k = Some it"
  shows "items (Set k v now c) = (items c)(k \<mapsto> it\<lparr>val := v, expiration := now + ttl c\<rparr>) \<and>
         lruList (Set k v now c) = (element it, k) # filter (\<lambda>p. snd p \<noteq> k) (lruList c) \<and>
         Size (Set k v now c) = Size c \<and>
         evictions (Set k v now c) = evictions c \<and>
         hits (Set k v now c) = hits c \<and>
         misses (Set k v now c) = misses c \<and>
         expirations (Set k v now c) = expirations c \<and>
         capacity (Set k v now c) = capacity c"
proof -
  from assms(1) have d: "distinct (map fst (lruList c))" by (simp add: cache_wf_iff)
  have node: "(element it, k) \<in> set (lruList c)" by (rule wf_itemD(1)[OF assms])
  have "list_MoveToFront (element it) (lruList c)
          = (element it, k) # filter (\<lambda>p. snd p \<noteq> k) (lruList c)"
    using MoveToFront_node[OF d node] filter_key_node[OF assms] by simp
  moreover have "dom ((items c)(k \<mapsto> it\<lparr>val := v, expiration := now + ttl c\<rparr>)) = dom (items c)"
    using assms(2) by auto
  ultimately show ?thesis using assms(2) by (simp add: Set_def Size_def)
qed

lemma full_cache_eq:
  "full_cache =
     \<lparr>capacity = 2, ttl = 10,
      items = [''a'' \<mapsto> \<lparr>key = ''a'', val = 1, expiration = 10, element = 0\<rparr>,
               ''b'' \<mapsto> \<lparr>key = ''b'', val = 2, expiration = 11, element = Suc 0\<rparr>],
      lruList = [(Suc 0, ''b''), (0, ''a'')],
      hits = 0, misses = 0, evictions = 0, expirations = 0, next_elem = Suc (Suc 0)\<rparr>"
  by (simp add: full_cache_def Set_def NewLRUCache_def Let_def list_Len_def list_PushFront_def)

theorem Set_existing_witness:
  "cache_wf full_cache \<and>
   items full_cache ''a'' = Some \<lparr>key = ''a'', val = 1, expiration = 10, element = 0\<rparr> \<and>
   list_Len (lruList full_cache) = capacity full_cache \<and>
   items (Set ''a'' 7 5 full_cache) ''a'' = Some \<lparr>key = ''a'', val = 7, expiration = 15, element = 0\<rparr> \<and>
   lruList (Set ''a'' 7 5 full_cache) = [(0, ''a''), (Suc 0, ''b'')] \<and>
   Size (Set ''a'' 7 5 full_cache) = Size full_cache \<and>
   evictions (Set ''a'' 7 5 full_cache) = evictions full_cache"
proof -
  have w: "cache_wf full_cache"
    by (simp add: full_cache_eq cache_wf_def node_ok_def)
  have i: "items full_cache ''a'' = Some \<lparr>key = ''a'', val = 1, expiration = 10, element = 0\<rparr>"
    by (simp add: full_cache_eq)
  have l: "lruList full_cache = [(Suc 0, ''b''), (0, ''a'')]" "ttl full_cache = 10"
    "capacity full_cache = 2"
    by (simp_all add: full_cache_eq)
  from Set_existing[OF w i, of 7 5] w i l show ?thesis by (simp add: list_Len_def)
qed

text \<open>
  Claim C7. For every cache and every key not present in the entry store,
  \<open>Delete(key)\<close> returns the state it was given: the map, the list, the size and
  the four counters are unchanged, and the call cannot fail.
\<close>

theorem Delete_absent:
  assumes "items c k = None"
  shows "Delete k c = c"
  using assms by (simp add: Delete_def remove_def)

theorem Delete_absent_witness:
  "items full_cache ''z'' = None \<and> Delete ''z'' full_cache = full_cache"
proof -
  have i: "items full_cache ''z'' = None" by (simp add: full_cache_eq)
  from Delete_absent[OF i] i show ?thesis by simp
qed

text \<open>
  Claim C8. For every cache state, after \<open>Clear()\<close> the map and the list are
  empty, \<open>Size()\<close> is 0, a \<open>Get\<close> of any key at any time returns
  not-found, and the four counters have the values they had before.
\<close>

theorem Clear_empties:
  "items (Clear c) = Map.empty \<and>
   lruList (Clear c) = [] \<and>
   Size (Clear c) = 0 \<and>
   fst (Get k now (Clear c)) = None \<and>
   hits (Clear c) = hits c \<and>
   misses (Clear c) = misses c \<and>
   evictions (Clear c) = evictions c \<and>
   expirations (Clear c) = expirations c"
  by (simp add: Clear_def Size_def Get_def)

subsection \<open>Reading what was written\<close>

text \<open>
  Claim C10. For every cache, key and value, a \<open>Get(key)\<close> that directly follows
  \<open>Set(key, value)\<close> and runs before the TTL has elapsed since the
  \<open>Set\<close> returns the value as found and adds one to the hits counter, which
  \<open>Set\<close> itself leaves alone.
\<close>

theorem Get_after_Set:
  assumes "now2 < now1 + ttl c"
  shows "fst (Get k now2 (Set k v now1 c)) = Some v \<and>
         hits (snd (Get k now2 (Set k v now1 c))) = hits (Set k v now1 c) + 1 \<and>
         hits (Set k v now1 c) = hits c"
proof (cases "items c k")
  case (Some it)
  with assms show ?thesis by (simp add: Set_def Get_def)
next
  case None
  with assms show ?thesis
    by (simp add: Set_def Get_def Let_def evictOldest_frame)
qed

theorem Get_after_Set_witness:
  "(3::int) < 1 + ttl full_cache \<and>
   fst (Get ''c'' 3 (Set ''c'' 9 1 full_cache)) = Some 9 \<and>
   hits (snd (Get ''c'' 3 (Set ''c'' 9 1 full_cache))) = hits (Set ''c'' 9 1 full_cache) + 1 \<and>
   hits (Set ''c'' 9 1 full_cache) = hits full_cache"
proof -
  have t: "(3::int) < 1 + ttl full_cache" by (simp add: full_cache_eq)
  from Get_after_Set[OF t, of "''c''" 9] t show ?thesis by simp
qed

subsection \<open>Eviction order\<close>

lemma lru_order_prefix_eq:
  assumes "a \<noteq> b" "t3 \<le> t1 + t"
  shows "run (NewLRUCache 2 t) [OpSet a v1 t1, OpSet b v2 t2, OpGet a t3] =
     \<lparr>capacity = 2, ttl = t,
      items = [a \<mapsto> \<lparr>key = a, val = v1, expiration = t1 + t, element = 0\<rparr>,
               b \<mapsto> \<lparr>key = b, val = v2, expiration = t2 + t, element = Suc 0\<rparr>],
      lruList = [(0, a), (Suc 0, b)],
      hits = 1, misses = 0, evictions = 0, expirations = 0, next_elem = Suc (Suc 0)\<rparr>"
proof -
  let ?c0 = "NewLRUCache 2 t :: 'a LRUCache"
  have s1: "Set a v1 t1 ?c0 =
     \<lparr>capacity = 2, ttl = t,
      items = [a \<mapsto> \<lparr>key = a, val = v1, expiration = t1 + t, element = 0\<rparr>],
      lruList = [(0, a)],
      hits = 0, misses = 0, evictions = 0, expirations = 0, next_elem = Suc 0\<rparr>"
    by (simp add: Set_def NewLRUCache_def Let_def list_Len_def list_PushFront_def)
  have s2: "Set b v2 t2 (Set a v1 t1 ?c0) =
     \<lparr>capacity = 2, ttl = t,
      items = [a \<mapsto> \<lparr>key = a, val = v1, expiration = t1 + t, element = 0\<rparr>,
               b \<mapsto> \<lparr>key = b, val = v2, expiration = t2 + t, element = Suc 0\<rparr>],
      lruList = [(Suc 0, b), (0, a)],
      hits = 0, misses = 0, evictions = 0, expirations = 0, next_elem = Suc (Suc 0)\<rparr>"
    unfolding s1 using assms(1)
    by (simp add: Set_def Let_def list_Len_def list_PushFront_def)
  have s3: "snd (Get a t3 (Set b v2 t2 (Set a v1 t1 ?c0))) =
     \<lparr>capacity = 2, ttl = t,
      items = [a \<mapsto> \<lparr>key = a, val = v1, expiration = t1 + t, element = 0\<rparr>,
               b \<mapsto> \<lparr>key = b, val = v2, expiration = t2 + t, element = Suc 0\<rparr>],
      lruList = [(0, a), (Suc 0, b)],
      hits = 1, misses = 0, evictions = 0, expirations = 0, next_elem = Suc (Suc 0)\<rparr>"
    unfolding s2 using assms
    by (simp add: Get_def list_MoveToFront_def)
  show ?thesis unfolding run_def by (simp add: s3)
qed

lemma lru_order_run_eq:
  assumes "a \<noteq> b" "a \<noteq> c" "b \<noteq> c" "t3 \<le> t1 + t"
  shows "lru_order_run a b c v1 v2 v3 t t1 t2 t3 t4 =
     \<lparr>capacity = 2, ttl = t,
      items = [a \<mapsto> \<lparr>key = a, val = v1, expiration = t1 + t, element = 0\<rparr>,
               c \<mapsto> \<lparr>key = c, val = v3, expiration = t4 + t, element = Suc (Suc 0)\<rparr>],
      lruList = [(Suc (Suc 0), c), (0, a)],
      hits = 1, misses = 0, evictions = 1, expirations = 0, next_elem = Suc (Suc (Suc 0))\<rparr>"
proof -
  have "lru_order_run a b c v1 v2 v3 t t1 t2 t3 t4 =
          Set c v3 t4 (run (NewLRUCache 2 t) [OpSet a v1 t1, OpSet b v2 t2, OpGet a t3])"
    by (simp add: lru_order_run_def run_def)
  also have "\<dots> =
     \<lparr>capacity = 2, ttl = t,
      items = [a \<mapsto> \<lparr>key = a, val = v1, expiration = t1 + t, element = 0\<rparr>,
               c \<mapsto> \<lparr>key = c, val = v3, expiration = t4 + t, element = Suc (Suc 0)\<rparr>],
      lruList = [(Suc (Suc 0), c), (0, a)],
      hits = 1, misses = 0, evictions = 1, expirations = 0, next_elem = Suc (Suc (Suc 0))\<rparr>"
    unfolding lru_order_prefix_eq[OF assms(1,4)] using assms(1,2,3)
    by (simp add: Set_def Let_def list_Len_def list_PushFront_def evictOldest_def list_Back_def
          remove_def list_Remove_def fun_upd_twist)
  finally show ?thesis .
qed

text \<open>
  Claim C4. On a cache of capacity 2 whose TTL is long enough that nothing expires, the
  calls \<open>Set(a,1), Set(b,2), Get(a), Set(c,3)\<close> leave exactly the keys
  \<open>a\<close> and \<open>c\<close> in the map: \<open>b\<close>, the least recently touched, is
  evicted by the last call, which takes the evictions counter from 0 to 1. Afterwards
  \<open>Get\<close> finds \<open>a\<close> and \<open>c\<close> and does not find \<open>b\<close>.
\<close>

theorem lru_order:
  assumes "a \<noteq> b" "a \<noteq> c" "b \<noteq> c"
    and "t3 \<le> t1 + t" "now \<le> t1 + t" "now \<le> t4 + t"
  shows "dom (items (run (NewLRUCache 2 t) [OpSet a v1 t1, OpSet b v2 t2, OpGet a t3])) = {a, b} \<and>
         dom (items (lru_order_run a b c v1 v2 v3 t t1 t2 t3 t4)) = {a, c} \<and>
         evictions (run (NewLRUCache 2 t) [OpSet a v1 t1, OpSet b v2 t2, OpGet a t3]) = 0 \<and>
         evictions (lru_order_run a b c v1 v2 v3 t t1 t2 t3 t4) = 1 \<and>
         fst (Get a now (lru_order_run a b c v1 v2 v3 t t1 t2 t3 t4)) = Some v1 \<and>
         fst (Get c now (lru_order_run a b c v1 v2 v3 t t1 t2 t3 t4)) = Some v3 \<and>
         fst (Get b now (lru_order_run a b c v1 v2 v3 t t1 t2 t3 t4)) = None"
proof -
  note pre = lru_order_prefix_eq[OF assms(1,4), of v1 v2 t2]
  note eq = lru_order_run_eq[OF assms(1-4), of v1 v2 v3 t2 t4]
  have "dom (items (run (NewLRUCache 2 t) [OpSet a v1 t1, OpSet b v2 t2, OpGet a t3])) = {a, b}"
    unfolding pre by (simp add: insert_commute)
  moreover have "dom (items (lru_order_run a b c v1 v2 v3 t t1 t2 t3 t4)) = {a, c}"
    unfolding eq by (simp add: insert_commute)
  moreover have "evictions (run (NewLRUCache 2 t) [OpSet a v1 t1, OpSet b v2 t2, OpGet a t3]) = 0"
    unfolding pre by simp
  moreover have "evictions (lru_order_run a b c v1 v2 v3 t t1 t2 t3 t4) = 1"
    unfolding eq by simp
  moreover have "fst (Get a now (lru_order_run a b c v1 v2 v3 t t1 t2 t3 t4)) = Some v1"
    unfolding eq using assms by (simp add: Get_def)
  moreover have "fst (Get c now (lru_order_run a b c v1 v2 v3 t t1 t2 t3 t4)) = Some v3"
    unfolding eq using assms by (simp add: Get_def)
  moreover have "fst (Get b now (lru_order_run a b c v1 v2 v3 t t1 t2 t3 t4)) = None"
    unfolding eq using assms by (simp add: Get_def)
  ultimately show ?thesis by blast
qed

theorem lru_order_witness:
  "''a'' \<noteq> ''b'' \<and> ''a'' \<noteq> ''c'' \<and> ''b'' \<noteq> ''c'' \<and>
   (2::int) \<le> 0 + 60 \<and> (4::int) \<le> 0 + 60 \<and> (4::int) \<le> 3 + 60 \<and>
   dom (items (run (NewLRUCache 2 60)
      [OpSet ''a'' (1::nat) 0, OpSet ''b'' 2 1, OpGet ''a'' 2, OpSet ''c'' 3 3])) = {''a'', ''c''} \<and>
   evictions (run (NewLRUCache 2 60)
      [OpSet ''a'' (1::nat) 0, OpSet ''b'' 2 1, OpGet ''a'' 2, OpSet ''c'' 3 3]) = 1 \<and>
   fst (Get ''a'' 4 (run (NewLRUCache 2 60)
      [OpSet ''a'' (1::nat) 0, OpSet ''b'' 2 1, OpGet ''a'' 2, OpSet ''c'' 3 3])) = Some 1 \<and>
   fst (Get ''c'' 4 (run (NewLRUCache 2 60)
      [OpSet ''a'' (1::nat) 0, OpSet ''b'' 2 1, OpGet ''a'' 2, OpSet ''c'' 3 3])) = Some 3 \<and>
   fst (Get ''b'' 4 (run (NewLRUCache 2 60)
      [OpSet ''a'' (1::nat) 0, OpSet ''b'' 2 1, OpGet ''a'' 2, OpSet ''c'' 3 3])) = None"
proof -
  have h: "''a'' \<noteq> ''b''" "''a'' \<noteq> ''c''" "''b'' \<noteq> ''c''"
    "(2::int) \<le> 0 + 60" "(4::int) \<le> 0 + 60" "(4::int) \<le> 3 + 60"
    by simp_all
  note r = lru_order[OF h, where ?v1.0 = "1::nat" and ?v2.0 = 2 and ?v3.0 = 3 and ?t2.0 = 1,
      unfolded lru_order_run_def]
  from r h show ?thesis by simp
qed

subsection \<open>The map and the list agree\<close>

text \<open>
  Claim C9. After any sequence of Get, Set, Delete and Clear calls on a newly constructed
  cache, so after every single call, the list has as many nodes as the map has entries,
  the nodes are pairwise distinct, and sending a key to the pair of its item's node and
  the key itself is a bijection from the keys of the map onto the nodes of the list:
  every entry owns exactly one node, and that node holds the entry's key. This holds for
  every capacity, positive or not.
\<close>

theorem recency_bijection:
  fixes ops :: "'v op list"
  shows "list_Len (lruList (run (NewLRUCache cap t) ops)) = Size (run (NewLRUCache cap t) ops) \<and>
         distinct (map fst (lruList (run (NewLRUCache cap t) ops))) \<and>
         bij_betw (\<lambda>k. (element (the (items (run (NewLRUCache cap t) ops) k)), k))
           (dom (items (run (NewLRUCache cap t) ops)))
           (set (lruList (run (NewLRUCache cap t) ops)))"
proof -
  define c where "c = run (NewLRUCache cap t) ops"
  have w: "cache_wf c" unfolding c_def by (rule wf_run[OF wf_New])
  have "list_Len (lruList c) = Size c" by (rule wf_Size[OF w, symmetric])
  moreover have "distinct (map fst (lruList c))" using w by (simp add: cache_wf_iff)
  moreover have "bij_betw (\<lambda>k. (element (the (items c k)), k)) (dom (items c)) (set (lruList c))"
    unfolding bij_betw_def
  proof
    show "inj_on (\<lambda>k. (element (the (items c k)), k)) (dom (items c))"
      by (rule inj_onI) simp
    show "(\<lambda>k. (element (the (items c k)), k)) ` dom (items c) = set (lruList c)"
    proof (rule set_eqI)
      fix p
      show "p \<in> (\<lambda>k. (element (the (items c k)), k)) ` dom (items c) \<longleftrightarrow> p \<in> set (lruList c)"
      proof
        assume "p \<in> (\<lambda>k. (element (the (items c k)), k)) ` dom (items c)"
        then obtain k it where "items c k = Some it" "p = (element it, k)" by auto
        with wf_itemD(1)[OF w] show "p \<in> set (lruList c)" by simp
      next
        assume p: "p \<in> set (lruList c)"
        from wf_nodeD(1)[OF w p] obtain it where
          it: "items c (snd p) = Some it" "element it = fst p" by blast
        then have "p = (\<lambda>k. (element (the (items c k)), k)) (snd p)" "snd p \<in> dom (items c)"
          by auto
        then show "p \<in> (\<lambda>k. (element (the (items c k)), k)) ` dom (items c)" by (rule image_eqI)
      qed
    qed
  qed
  ultimately show ?thesis unfolding c_def by blast
qed

subsection \<open>Construction\<close>

text \<open>
  Claim C3, amended. \<open>NewLRUCache\<close> does not validate the capacity: given a
  non-positive capacity it returns an empty cache that stores the capacity as passed,
  neither rejected nor clamped, and the cache accepts calls: a \<open>Set\<close> stores its
  key, after which \<open>Size()\<close> is 1, and a \<open>Get\<close> before the expiration
  returns the value.
\<close>

theorem NewLRUCache_unguarded:
  assumes "cap \<le> 0" "now2 \<le> now1 + t"
  shows "capacity (NewLRUCache cap t :: 'v LRUCache) = cap \<and>
         items (NewLRUCache cap t :: 'v LRUCache) = Map.empty \<and>
         lruList (NewLRUCache cap t :: 'v LRUCache) = [] \<and>
         Size (Set k v now1 (NewLRUCache cap t)) = 1 \<and>
         fst (Get k now2 (Set k v now1 (NewLRUCache cap t))) = Some v"
  using assms
  by (simp add: NewLRUCache_def Set_def Get_def Size_def Let_def list_Len_def evictOldest_def
        list_Back_def list_PushFront_def)

theorem NewLRUCache_unguarded_witness:
  "(-1::int) \<le> 0 \<and> (5::int) \<le> 0 + 60 \<and>
   capacity (NewLRUCache (-1) 60 :: nat LRUCache) = -1 \<and>
   Size (Set ''a'' (7::nat) 0 (NewLRUCache (-1) 60)) = 1 \<and>
   fst (Get ''a'' 5 (Set ''a'' (7::nat) 0 (NewLRUCache (-1) 60))) = Some 7"
proof -
  have h: "(-1::int) \<le> 0" "(5::int) \<le> 0 + 60" by simp_all
  from NewLRUCache_unguarded[OF h, of "''a''" "7::nat"] h show ?thesis by blast
qed

text \<open>
  Claim C3 as first stated says that construction with a non-positive capacity is
  rejected. With capacity 0 the constructor returns a cache, \<open>Set\<close> stores an
  entry in it and \<open>Get\<close> reads the entry back.
\<close>

theorem NewLRUCache_zero_capacity_counterexample:
  "capacity (NewLRUCache 0 60 :: nat LRUCache) = 0 \<and>
   items (Set ''a'' 7 0 (NewLRUCache 0 60 :: nat LRUCache)) ''a''
     = Some \<lparr>key = ''a'', val = 7, expiration = 60, element = 0\<rparr> \<and>
   Size (Set ''a'' 7 0 (NewLRUCache 0 60 :: nat LRUCache)) = 1 \<and>
   fst (Get ''a'' 5 (Set ''a'' 7 0 (NewLRUCache 0 60 :: nat LRUCache))) = Some 7"
  by (simp add: NewLRUCache_def Set_def Get_def Size_def Let_def list_Len_def evictOldest_def
        list_Back_def list_PushFront_def)

subsection \<open>The hit rate\<close>

text \<open>Rounding moves a number in the normal range by at most the factor \<open>2\<^sup>-\<^sup>5\<^sup>3\<close>.\<close>

lemma round_half_even_error: "\<bar>of_int (round_half_even y) - y\<bar> \<le> 1 / 2"
proof -
  have "of_int \<lfloor>y\<rfloor> \<le> y" "y < of_int \<lfloor>y\<rfloor> + 1" by linarith+
  then show ?thesis
    by (auto simp: round_half_even_def Let_def)
qed

lemma round_half_even_of_int: "round_half_even (of_int n) = n"
  by (simp add: round_half_even_def)

lemma float64_exponent_normal:
  assumes "2 powr (- 1022) \<le> \<bar>x\<bar>"
  shows "float64_exponent x = \<lfloor>log 2 \<bar>x\<bar>\<rfloor>"
    and "2 powr of_int (float64_exponent x) \<le> \<bar>x\<bar>"
proof -
  have "(0::real) < 2 powr (- 1022)" by simp
  with assms have pos: "0 < \<bar>x\<bar>" by linarith
  from assms pos have "- 1022 \<le> log 2 \<bar>x\<bar>" by (simp add: le_log_iff)
  then have "(- 1022 :: int) \<le> \<lfloor>log 2 \<bar>x\<bar>\<rfloor>" by (simp add: le_floor_iff)
  then show e: "float64_exponent x = \<lfloor>log 2 \<bar>x\<bar>\<rfloor>"
    by (simp add: float64_exponent_def)
  have fl: "of_int \<lfloor>log 2 \<bar>x\<bar>\<rfloor> \<le> log 2 \<bar>x\<bar>" by (rule of_int_floor_le)
  have "(of_int \<lfloor>log 2 \<bar>x\<bar>\<rfloor> \<le> log 2 \<bar>x\<bar>)
          = (2 powr of_int \<lfloor>log 2 \<bar>x\<bar>\<rfloor> \<le> \<bar>x\<bar>)"
    by (rule le_log_iff) (use pos in simp_all)
  with fl show "2 powr of_int (float64_exponent x) \<le> \<bar>x\<bar>"
    unfolding e by blast
qed

lemma float64_ulp_pos: "0 < float64_ulp x"
  by (simp add: float64_ulp_def)

lemma float64_round_abs_error: "\<bar>float64_round x - x\<bar> \<le> float64_ulp x / 2"
proof (cases "x = 0")
  case True
  then show ?thesis using float64_ulp_pos[of x] by (simp add: float64_round_def)
next
  case False
  let ?u = "float64_ulp x"
  let ?r = "of_int (round_half_even (x / ?u)) :: real"
  have u: "0 < ?u" by (rule float64_ulp_pos)
  have "\<bar>?r * ?u - x\<bar> = \<bar>(?r - x / ?u) * ?u\<bar>" using u by (simp add: algebra_simps)
  also have "\<dots> = \<bar>?r - x / ?u\<bar> * ?u" using u by (simp add: abs_mult)
  also have "\<dots> \<le> 1 / 2 * ?u"
    using u round_half_even_error[of "x / ?u"] by (intro mult_right_mono) simp_all
  finally show ?thesis using False by (simp add: float64_round_def)
qed

lemma float64_round_rel_error:
  assumes "2 powr (- 1022) \<le> \<bar>x\<bar>"
  shows "\<bar>float64_round x - x\<bar> \<le> 2 powr (- 53) * \<bar>x\<bar>"
proof -
  have "float64_ulp x / 2 = 2 powr (- 53) * 2 powr of_int (float64_exponent x)"
  proof -
    have "float64_ulp x = 2 powr (of_int (float64_exponent x) + (- 52))"
      by (simp add: float64_ulp_def)
    also have "\<dots> = 2 powr of_int (float64_exponent x) * 2 powr (- 52)"
      by (rule powr_add)
    finally have "float64_ulp x / 2 = 2 powr of_int (float64_exponent x) * (2 powr (- 52) / 2)"
      by simp
    moreover have "(2 powr (- 52) / 2 :: real) = 2 powr (- 53)"
    proof -
      have "(2 powr (- 53) :: real) = 2 powr (- 52 + (- 1))" by simp
      also have "\<dots> = 2 powr (- 52) * 2 powr (- 1)" by (rule powr_add)
      also have "(2 powr (- 1) :: real) = 1 / 2" by (simp add: powr_minus_divide)
      finally show ?thesis by simp
    qed
    ultimately show ?thesis by simp
  qed
  also have "\<dots> \<le> 2 powr (- 53) * \<bar>x\<bar>"
    using float64_exponent_normal(2)[OF assms] by (intro mult_left_mono) simp_all
  finally show ?thesis using float64_round_abs_error[of x] by linarith
qed

text \<open>
  Four roundings in a row: two conversions, a division and a multiplication by 100.
\<close>

lemma rel_bounds:
  fixes u x y :: real
  assumes "0 \<le> x" "\<bar>y - x\<bar> \<le> u * x"
  shows "(1 - u) * x \<le> y" "y \<le> (1 + u) * x"
  using assms by (simp_all add: algebra_simps abs_le_iff)

lemma cube_upper:
  fixes u :: real
  assumes "0 \<le> u" "u \<le> 1 / 4"
  shows "(1 + u) * (1 + u) * (1 + u) \<le> (1 + 8 * u) * (1 - u)"
proof -
  have 1: "u * u \<le> u * (1 / 4)" using assms by (intro mult_left_mono) simp_all
  have "u * u * u \<le> u * u * (1 / 4)" using assms by (intro mult_left_mono) simp_all
  with 1 have 2: "u * u * u \<le> u * (1 / 16)" by simp
  have "(1 + 8 * u) * (1 - u) - (1 + u) * (1 + u) * (1 + u) = 4 * u - 11 * (u * u) - u * u * u"
    by (simp add: algebra_simps)
  with 1 2 assms show ?thesis by linarith
qed

lemma cube_lower:
  fixes u :: real
  assumes "0 \<le> u" "u \<le> 1 / 4"
  shows "(1 - 8 * u) * (1 + u) \<le> (1 - u) * (1 - u) * (1 - u)"
proof -
  have 1: "u * u \<le> u * (1 / 4)" using assms by (intro mult_left_mono) simp_all
  have 0: "0 \<le> u * u" using assms by simp
  have "u * u * u \<le> u * u * (1 / 4)" using assms by (intro mult_left_mono) simp_all
  then have 2: "u * u * u \<le> u * u" using 0 by linarith
  have "(1 - u) * (1 - u) * (1 - u) - (1 - 8 * u) * (1 + u) = 4 * u + 11 * (u * u) - u * u * u"
    by (simp add: algebra_simps)
  with 0 2 assms show ?thesis by linarith
qed

lemma cancel_factor:
  fixes c x h t :: real
  assumes "c \<noteq> 0"
  shows "(x * h) / (c * t) * c = x * (h / t)"
  using assms by simp

lemma reassoc:
  fixes p s w c x y :: real
  shows "p * (p * w * c) * s = p * p * c * (w * s)"
    and "p * p * c * (p * y) = p * p * p * (y * c)"
    and "x * s * y = (x * y) * s"
  by (simp_all add: mult_ac)

lemma rounded_quotient_error:
  fixes u h t a b q r :: real
  assumes u: "0 \<le> u" "u \<le> 1 / 4"
    and h: "0 < h" and t: "0 < t"
    and a: "\<bar>a - h\<bar> \<le> u * h" and b: "\<bar>b - t\<bar> \<le> u * t"
    and q: "\<bar>q - a / b\<bar> \<le> u * (a / b)"
    and r: "\<bar>r - q * 100\<bar> \<le> u * (q * 100)"
  shows "\<bar>r - h / t * 100\<bar> \<le> 8 * u * (h / t * 100)"
proof -
  have um: "0 < 1 - u" "0 < 1 + u" using u by simp_all
  note ab = rel_bounds[OF less_imp_le[OF h] a] rel_bounds[OF less_imp_le[OF t] b]
  have "0 < (1 - u) * h" "0 < (1 - u) * t" using h t um by simp_all
  with ab(1,3) have a0: "0 < a" and b0: "0 < b" by linarith+
  have q0: "0 < a / b" using a0 b0 by simp
  note qb = rel_bounds[OF less_imp_le[OF q0] q]
  have "0 < (1 - u) * (a / b)" using q0 um(1) by (rule mult_pos_pos[rotated])
  with qb(1) have qpos: "0 < q" by linarith
  then have q100: "0 \<le> q * 100" by simp
  note rb = rel_bounds[OF q100 r]
  define E where "E = h / t"
  have E: "0 < E" using h t by (simp add: E_def)
  have hi0: "a / b \<le> ((1 + u) * h) / ((1 - u) * t)"
    using ab a0 h t um by (intro frac_le) simp_all
  have lo0: "((1 - u) * h) / ((1 + u) * t) \<le> a / b"
    using ab a0 b0 h t um by (intro frac_le) simp_all
  have hi1: "a / b * (1 - u) \<le> (1 + u) * E"
  proof -
    have "a / b * (1 - u) \<le> ((1 + u) * h) / ((1 - u) * t) * (1 - u)"
      using hi0 um by (intro mult_right_mono) simp_all
    also have "\<dots> = (1 + u) * E" unfolding E_def using um by (intro cancel_factor) simp
    finally show ?thesis .
  qed
  have lo1: "(1 - u) * E \<le> a / b * (1 + u)"
  proof -
    have "((1 - u) * h) / ((1 + u) * t) * (1 + u) \<le> a / b * (1 + u)"
      using lo0 um by (intro mult_right_mono) simp_all
    moreover have "((1 - u) * h) / ((1 + u) * t) * (1 + u) = (1 - u) * E"
      unfolding E_def using um by (intro cancel_factor) simp
    ultimately show ?thesis by simp
  qed
  have up: "r * (1 - u) \<le> (1 + 8 * u) * (1 - u) * (E * 100)"
  proof -
    have "r * (1 - u) \<le> (1 + u) * (q * 100) * (1 - u)"
      using rb(2) um by (intro mult_right_mono) simp_all
    also have "\<dots> \<le> (1 + u) * ((1 + u) * (a / b) * 100) * (1 - u)"
      using qb(2) um by (intro mult_right_mono mult_left_mono) simp_all
    also have "\<dots> = (1 + u) * (1 + u) * 100 * (a / b * (1 - u))" by (rule reassoc(1))
    also have "\<dots> \<le> (1 + u) * (1 + u) * 100 * ((1 + u) * E)"
      using hi1 um by (intro mult_left_mono) simp_all
    also have "\<dots> = (1 + u) * (1 + u) * (1 + u) * (E * 100)" by (rule reassoc(2))
    also have "\<dots> \<le> (1 + 8 * u) * (1 - u) * (E * 100)"
      using cube_upper[OF u] E by (intro mult_right_mono) simp_all
    finally show ?thesis .
  qed
  have down: "(1 - 8 * u) * (1 + u) * (E * 100) \<le> r * (1 + u)"
  proof -
    have "(1 - 8 * u) * (1 + u) * (E * 100) \<le> (1 - u) * (1 - u) * (1 - u) * (E * 100)"
      using cube_lower[OF u] E by (intro mult_right_mono) simp_all
    also have "\<dots> = (1 - u) * (1 - u) * 100 * ((1 - u) * E)" by (rule reassoc(2)[symmetric])
    also have "\<dots> \<le> (1 - u) * (1 - u) * 100 * (a / b * (1 + u))"
      using lo1 um by (intro mult_left_mono) simp_all
    also have "\<dots> = (1 - u) * ((1 - u) * (a / b) * 100) * (1 + u)" by (rule reassoc(1)[symmetric])
    also have "\<dots> \<le> (1 - u) * (q * 100) * (1 + u)"
      using qb(1) um by (intro mult_right_mono mult_left_mono) simp_all
    also have "\<dots> \<le> r * (1 + u)"
      using rb(1) um by (intro mult_right_mono) simp_all
    finally show ?thesis .
  qed
  have "r \<le> (1 + 8 * u) * (E * 100)"
  proof -
    from up have "r * (1 - u) \<le> ((1 + 8 * u) * (E * 100)) * (1 - u)" by (simp only: reassoc(3))
    then show ?thesis using um(1) by (rule mult_right_le_imp_le)
  qed
  moreover have "(1 - 8 * u) * (E * 100) \<le> r"
  proof -
    from down have "((1 - 8 * u) * (E * 100)) * (1 + u) \<le> r * (1 + u)" by (simp only: reassoc(3))
    then show ?thesis using um(2) by (rule mult_right_le_imp_le)
  qed
  ultimately show ?thesis unfolding E_def[symmetric] by (simp add: abs_le_iff algebra_simps)
qed

lemma two_powr_le: "x \<le> y \<Longrightarrow> (2::real) powr x \<le> 2 powr y"
  by (rule powr_mono) simp_all

lemma float64_round_zero: "float64_round 0 = 0"
  by (simp add: float64_round_def)

lemma hit_rate_error:
  fixes H T :: nat
  assumes H: "0 < H" and Tpos: "0 < T" and T: "T < 2 ^ 64"
  shows "\<bar>float64_mul (float64_div (float64_round (real H)) (float64_round (real T))) 100
           - real H / real T * 100\<bar>
         \<le> 2 powr (- 50) * (real H / real T * 100)"
proof -
  define u :: real where "u = 2 powr (- 53)"
  define a where "a = float64_round (real H)"
  define b where "b = float64_round (real T)"
  define q where "q = float64_round (a / b)"
  define r where "r = float64_round (q * 100)"
  have u0: "0 \<le> u" by (simp add: u_def)
  have "u \<le> 2 powr (- 2)" unfolding u_def by (rule two_powr_le) simp
  also have "(2 powr (- 2) :: real) = 1 / 4" by (simp add: powr_minus_divide)
  finally have u4: "u \<le> 1 / 4" .
  have tiny: "(2 powr (- 1022) :: real) \<le> 2 powr (- 67)" by (rule two_powr_le) simp
  have one: "(2 powr (- 67) :: real) \<le> 1"
    using two_powr_le[of "- 67" 0] by simp
  have Hr: "1 \<le> real H" and Tr: "1 \<le> real T" using H Tpos by simp_all
  have ea: "\<bar>a - real H\<bar> \<le> u * real H"
    unfolding a_def u_def using float64_round_rel_error[of "real H"] tiny one Hr by simp
  have eb: "\<bar>b - real T\<bar> \<le> u * real T"
    unfolding b_def u_def using float64_round_rel_error[of "real T"] tiny one Tr by simp
  have H0: "0 \<le> real H" and T0: "0 \<le> real T" by simp_all
  note ab = rel_bounds[OF H0 ea] rel_bounds[OF T0 eb]
  have a_lo: "1 / 2 \<le> a"
  proof -
    have "1 / 2 \<le> (1 - u) * 1" using u4 by simp
    also have "\<dots> \<le> (1 - u) * real H" using Hr u4 by (intro mult_left_mono) simp_all
    finally show ?thesis using ab(1) by linarith
  qed
  have b_lo: "0 < b"
  proof -
    have "0 < (1 - u) * real T" using Tr u4 by (intro mult_pos_pos) simp_all
    with ab(3) show ?thesis by linarith
  qed
  have b_hi: "b \<le> 2 ^ 65"
  proof -
    have "real T \<le> 2 ^ 64" using T by (metis less_imp_le of_nat_le_iff of_nat_numeral of_nat_power)
    then have "(1 + u) * real T \<le> 2 * 2 ^ 64" using u0 u4 by (intro mult_mono) simp_all
    with ab(4) show ?thesis by simp
  qed
  have q0_lo: "2 powr (- 66) \<le> a / b"
  proof -
    have l: "(1 / 2) / 2 ^ 65 \<le> a / b" using a_lo b_lo b_hi by (intro frac_le) simp_all
    have e: "(2 powr (- 66) :: real) = (1 / 2) / 2 ^ 65"
      by (simp add: powr_minus_divide)
    show ?thesis unfolding e by (rule l)
  qed
  have q0_pos: "0 < a / b" using a_lo b_lo by simp
  have eq: "\<bar>q - a / b\<bar> \<le> u * (a / b)"
  proof -
    have "(2 powr (- 1022) :: real) \<le> 2 powr (- 66)" by (rule two_powr_le) simp
    with q0_lo q0_pos have "2 powr (- 1022) \<le> \<bar>a / b\<bar>" by linarith
    from float64_round_rel_error[OF this] have "\<bar>q - a / b\<bar> \<le> u * \<bar>a / b\<bar>"
      by (simp only: q_def u_def)
    moreover have "\<bar>a / b\<bar> = a / b" using q0_pos by (rule abs_of_pos)
    ultimately show ?thesis by (simp only:)
  qed
  note qb = rel_bounds[OF less_imp_le[OF q0_pos] eq]
  have q_lo: "2 powr (- 67) \<le> q"
  proof -
    have "(2 powr (- 67) :: real) = (1 / 2) * 2 powr (- 66)"
      by (simp add: powr_minus_divide)
    also have "\<dots> \<le> (1 - u) * (a / b)" using q0_lo u4 by (intro mult_mono) simp_all
    finally show ?thesis using qb(1) by linarith
  qed
  have er: "\<bar>r - q * 100\<bar> \<le> u * (q * 100)"
  proof -
    have "(0::real) < 2 powr (- 67)" by simp
    with q_lo have q0: "0 < q" by linarith
    then have "q \<le> q * 100" by simp
    with q_lo tiny q0 have "2 powr (- 1022) \<le> \<bar>q * 100\<bar>" by linarith
    from float64_round_rel_error[OF this] have "\<bar>r - q * 100\<bar> \<le> u * \<bar>q * 100\<bar>"
      by (simp only: r_def u_def)
    moreover have "\<bar>q * 100\<bar> = q * 100" using q0 by (intro abs_of_pos) simp
    ultimately show ?thesis by (simp only:)
  qed
  have "\<bar>r - real H / real T * 100\<bar> \<le> 8 * u * (real H / real T * 100)"
    using u0 u4 _ _ ea eb eq er by (rule rounded_quotient_error) (simp_all add: H Tpos)
  moreover have "8 * u = 2 powr (- 50)"
  proof -
    have "(2 powr (- 50) :: real) = 2 powr (3 + (- 53))" by simp
    also have "\<dots> = 2 powr 3 * 2 powr (- 53)" by (rule powr_add)
    also have "(2 powr 3 :: real) = 8" by simp
    finally show ?thesis by (simp add: u_def)
  qed
  ultimately show ?thesis
    by (simp add: r_def q_def a_def b_def float64_mul_def float64_div_def)
qed

lemma Stats_HitRate:
  "HitRate (Stats c) =
     (if hits c + misses c = 0 then 0
      else float64_mul (float64_div (float64_of_uint64 (hits c))
                                    (float64_of_uint64 (hits c + misses c))) 100)"
  by (simp add: Stats_def Let_def word_gt_0)

lemma float64_round_dyadic: "\<exists>n k. float64_round x = of_int n * 2 powr of_int k"
proof (cases "x = 0")
  case True
  have "float64_round x = of_int 0 * 2 powr of_int 0" using True by (simp add: float64_round_def)
  then show ?thesis by blast
next
  case False
  then have "float64_round x =
      of_int (round_half_even (x / float64_ulp x)) * 2 powr of_int (float64_exponent x - 52)"
    by (simp add: float64_round_def float64_ulp_def)
  then show ?thesis by blast
qed

lemma third_not_dyadic: "of_int n * 2 powr of_int k \<noteq> (100 / 3 :: real)"
proof
  assume eq: "of_int n * 2 powr of_int k = (100 / 3 :: real)"
  have three: "\<not> (3::int) dvd 100" by simp
  show False
  proof (cases "0 \<le> k")
    case True
    then have "(2 powr of_int k :: real) = 2 ^ nat k"
      by (metis of_nat_nat powr_realpow zero_less_numeral)
    with eq have "3 * (of_int n * 2 ^ nat k) = (100 :: real)" by simp
    then have "of_int (3 * (n * 2 ^ nat k)) = (of_int 100 :: real)" by simp
    then have "3 * (n * 2 ^ nat k) = (100 :: int)" by (simp only: of_int_eq_iff)
    then have "(3::int) dvd 100" by (metis dvd_triv_left)
    with three show False ..
  next
    case False
    define j where "j = nat (- k)"
    from False have k: "of_int k = - real j" by (simp add: j_def)
    have "(2 powr of_int k :: real) = 1 / 2 ^ j"
      unfolding k by (simp add: powr_minus_divide powr_realpow)
    with eq have "3 * of_int n = (100 * 2 ^ j :: real)" by (simp add: field_simps)
    then have "of_int (3 * n) = (of_int (100 * 2 ^ j) :: real)" by simp
    then have "3 * n = (100 * 2 ^ j :: int)" by (simp only: of_int_eq_iff)
    then have "(3::int) dvd 100 * 2 ^ j" by (metis dvd_triv_left)
    moreover have "coprime (3::int) (2 ^ j)" by simp
    ultimately have "(3::int) dvd 100" by (simp add: coprime_dvd_mult_left_iff)
    with three show False ..
  qed
qed

lemma thirds_cache_counters: "hits thirds_cache = 1" "misses thirds_cache = 2"
  by (simp_all add: thirds_cache_def run_def Set_def Get_def NewLRUCache_def Let_def
        list_Len_def list_PushFront_def list_MoveToFront_def)

lemma test_stats_cache_counters: "hits test_stats_cache = 3" "misses test_stats_cache = 1"
  by (simp_all add: test_stats_cache_def run_def Set_def Get_def NewLRUCache_def Let_def
        list_Len_def list_PushFront_def list_MoveToFront_def)

text \<open>
  Claim C5 as first stated gives the rate as \<open>h / (h + m) * 100\<close> whenever
  \<open>h + m > 0\<close>. After one hit and two misses the rate is a \<open>float64\<close>, a
  multiple of a power of two, and so is not \<open>100 / 3\<close>. With
  \<open>h = 2\<^sup>6\<^sup>4 - 1\<close> and \<open>m = 1\<close> the \<open>uint64\<close> sum is 0 and the rate is 0,
  although \<open>h / (h + m) * 100\<close> is not.
\<close>

theorem Stats_hit_rate_counterexample:
  "hits thirds_cache = 1 \<and> misses thirds_cache = 2 \<and>
   HitRate (Stats thirds_cache) \<noteq> 1 / (1 + 2) * 100 \<and>
   hits wrapped_cache = 18446744073709551615 \<and> misses wrapped_cache = 1 \<and>
   HitRate (Stats wrapped_cache) = 0 \<and>
   (18446744073709551615 / (18446744073709551615 + 1) * 100 :: real) \<noteq> 0"
proof -
  obtain n k where "float64_round
      (float64_div (float64_of_uint64 1) (float64_of_uint64 (1 + 2)) * 100)
        = of_int n * 2 powr of_int k"
    using float64_round_dyadic by blast
  with third_not_dyadic[of n k]
  have "HitRate (Stats thirds_cache) \<noteq> 100 / 3"
    by (simp add: Stats_HitRate thirds_cache_counters float64_mul_def)
  moreover have "HitRate (Stats wrapped_cache) = 0"
    by (simp add: Stats_HitRate wrapped_cache_def)
  ultimately show ?thesis
    by (simp add: thirds_cache_counters wrapped_cache_def)
qed

lemma Stats_rate_error:
  assumes "hits c + misses c \<noteq> 0"
  shows "\<bar>HitRate (Stats c)
            - real (unat (hits c)) / real (unat (hits c + misses c)) * 100\<bar>
         \<le> 2 powr (- 50) * (real (unat (hits c)) / real (unat (hits c + misses c)) * 100)"
proof -
  define H where "H = unat (hits c)"
  define T where "T = unat (hits c + misses c)"
  have T0: "0 < T" using assms by (simp add: T_def unat_gt_0)
  have "T < 2 ^ LENGTH(64)" unfolding T_def by (rule unsigned_less)
  then have T: "T < 2 ^ 64" by simp
  have rate: "HitRate (Stats c) =
      float64_mul (float64_div (float64_round (real H)) (float64_round (real T))) 100"
    using assms by (simp add: Stats_HitRate float64_of_uint64_def H_def T_def)
  have "\<bar>HitRate (Stats c) - real H / real T * 100\<bar> \<le> 2 powr (- 50) * (real H / real T * 100)"
  proof (cases "H = 0")
    case True
    then show ?thesis
      unfolding rate by (simp add: float64_mul_def float64_div_def float64_round_zero)
  next
    case False
    then have "0 < H" by simp
    then show ?thesis unfolding rate using T0 T by (rule hit_rate_error)
  qed
  then show ?thesis by (simp only: H_def T_def)
qed

text \<open>
  Claim C5, amended. For every cache state, with \<open>h\<close> the hits counter and
  \<open>m\<close> the misses counter, \<open>Stats()\<close> returns the hit rate 0 when the
  \<open>uint64\<close> sum \<open>h + m\<close>, which wraps around at \<open>2\<^sup>6\<^sup>4\<close>, is 0, and
  otherwise the \<open>float64\<close> result of \<open>float64(h) / float64(h + m) * 100\<close>,
  each conversion, the division and the multiplication rounded to nearest. That result
  lies within the relative error \<open>2\<^sup>-\<^sup>5\<^sup>0\<close> of \<open>h\<close> divided by the wrapped sum,
  times 100; so when \<open>h + m\<close> is positive and does not wrap, it lies within the
  relative error \<open>2\<^sup>-\<^sup>5\<^sup>0\<close> of the exact \<open>h / (h + m) * 100\<close>.
\<close>

theorem Stats_hit_rate:
  "HitRate (Stats c) =
     (if hits c + misses c = 0 then 0
      else float64_mul (float64_div (float64_of_uint64 (hits c))
                                    (float64_of_uint64 (hits c + misses c))) 100) \<and>
   (hits c + misses c \<noteq> 0 \<longrightarrow>
      \<bar>HitRate (Stats c)
          - real (unat (hits c)) / real (unat (hits c + misses c)) * 100\<bar>
        \<le> 2 powr (- 50)
            * (real (unat (hits c)) / real (unat (hits c + misses c)) * 100)) \<and>
   (0 < unat (hits c) + unat (misses c) \<and> unat (hits c) + unat (misses c) < 2 ^ 64 \<longrightarrow>
      \<bar>HitRate (Stats c)
          - real (unat (hits c)) / real (unat (hits c) + unat (misses c)) * 100\<bar>
        \<le> 2 powr (- 50)
            * (real (unat (hits c)) / real (unat (hits c) + unat (misses c)) * 100))"
proof (intro conjI impI)
  show "HitRate (Stats c) =
     (if hits c + misses c = 0 then 0
      else float64_mul (float64_div (float64_of_uint64 (hits c))
                                    (float64_of_uint64 (hits c + misses c))) 100)"
    by (rule Stats_HitRate)
next
  assume "hits c + misses c \<noteq> 0"
  then show "\<bar>HitRate (Stats c)
          - real (unat (hits c)) / real (unat (hits c + misses c)) * 100\<bar>
        \<le> 2 powr (- 50)
            * (real (unat (hits c)) / real (unat (hits c + misses c)) * 100)"
    by (rule Stats_rate_error)
next
  assume "0 < unat (hits c) + unat (misses c) \<and> unat (hits c) + unat (misses c) < 2 ^ 64"
  then have pos: "0 < unat (hits c) + unat (misses c)"
    and small: "unat (hits c) + unat (misses c) < 2 ^ 64" by simp_all
  from small have sum: "unat (hits c + misses c) = unat (hits c) + unat (misses c)"
    using unat_add_lem[of "hits c" "misses c"] by simp
  with pos have "hits c + misses c \<noteq> 0" by (metis less_numeral_extra(3) unat_0)
  from Stats_rate_error[OF this]
  show "\<bar>HitRate (Stats c)
          - real (unat (hits c)) / real (unat (hits c) + unat (misses c)) * 100\<bar>
        \<le> 2 powr (- 50)
            * (real (unat (hits c)) / real (unat (hits c) + unat (misses c)) * 100)"
    by (simp only: sum)
qed

theorem Stats_hit_rate_witness:
  "hits test_stats_cache + misses test_stats_cache \<noteq> 0 \<and>
   0 < unat (hits test_stats_cache) + unat (misses test_stats_cache) \<and>
   unat (hits test_stats_cache) + unat (misses test_stats_cache) < 2 ^ 64 \<and>
   \<bar>HitRate (Stats test_stats_cache) - 3 / 4 * 100\<bar> \<le> 2 powr (- 50) * (3 / 4 * 100) \<and>
   HitRate (Stats (NewLRUCache 10 60 :: nat LRUCache)) = 0"
proof -
  have n: "hits test_stats_cache + misses test_stats_cache \<noteq> 0"
    by (simp add: test_stats_cache_counters)
  have h: "0 < unat (hits test_stats_cache) + unat (misses test_stats_cache) \<and>
           unat (hits test_stats_cache) + unat (misses test_stats_cache) < 2 ^ 64"
    by (simp add: test_stats_cache_counters)
  have z: "hits (NewLRUCache 10 60 :: nat LRUCache) + misses (NewLRUCache 10 60 :: nat LRUCache) = 0"
    by (simp add: NewLRUCache_def)
  note b = Stats_hit_rate[of test_stats_cache, THEN conjunct2, THEN conjunct2, rule_format, OF h]
  note e = Stats_hit_rate[of "NewLRUCache 10 60 :: nat LRUCache", THEN conjunct1]
  have "real (unat (hits test_stats_cache))
          / real (unat (hits test_stats_cache) + unat (misses test_stats_cache)) * 100
        = 3 / 4 * 100"
    by (simp add: test_stats_cache_counters)
  with b have "\<bar>HitRate (Stats test_stats_cache) - 3 / 4 * 100\<bar>
                 \<le> 2 powr (- 50) * (3 / 4 * 100)"
    by (simp only:)
  moreover from e z have "HitRate (Stats (NewLRUCache 10 60 :: nat LRUCache)) = 0"
    by simp
  ultimately show ?thesis using n conjunct1[OF h] conjunct2[OF h] by (intro conjI)
qed

subsection \<open>Rounding is exact on the numbers a float64 holds\<close>

text \<open>
  A number \<open>n * 2\<^sup>k\<close> with \<open>|n| < 2\<^sup>5\<^sup>3\<close> and \<open>k \<ge> -1074\<close> is a
  \<open>float64\<close>, and rounding returns it unchanged.
\<close>

lemma float64_round_representable:
  fixes n k :: int
  assumes n: "\<bar>n\<bar> < 2 ^ 53" and k: "- 1074 \<le> k"
  shows "float64_round (of_int n * 2 powr of_int k) = of_int n * 2 powr of_int k"
proof (cases "n = 0")
  case True
  then show ?thesis by (simp add: float64_round_zero)
next
  case False
  define x :: real where "x = of_int n * 2 powr of_int k"
  have x0: "x \<noteq> 0" using False by (simp add: x_def)
  have ax: "\<bar>x\<bar> = of_int \<bar>n\<bar> * 2 powr of_int k" by (simp add: x_def abs_mult)
  have "of_int \<bar>n\<bar> < (2 ^ 53 :: real)" using n by (metis of_int_less_iff of_int_numeral of_int_power)
  then have "\<bar>x\<bar> < 2 ^ 53 * 2 powr of_int k" unfolding ax by (intro mult_strict_right_mono) simp_all
  also have "(2 ^ 53 :: real) = 2 powr 53" by simp
  also have "(2 powr 53 :: real) * 2 powr of_int k = 2 powr (of_int (53 + k))"
    by (simp add: powr_add)
  finally have "\<bar>x\<bar> < 2 powr (of_int (53 + k))" .
  then have "log 2 \<bar>x\<bar> < of_int (53 + k)" using x0 by (simp add: log_less_iff)
  then have "\<lfloor>log 2 \<bar>x\<bar>\<rfloor> < 53 + k" by (simp add: floor_less_iff)
  with k have E: "float64_exponent x - 52 \<le> k" by (simp add: float64_exponent_def)
  define j where "j = nat (k - (float64_exponent x - 52))"
  have kj: "of_int k = real j + of_int (float64_exponent x - 52)" using E by (simp add: j_def)
  have "(2 powr of_int k :: real) = 2 powr (real j + of_int (float64_exponent x - 52))"
    by (simp only: kj)
  also have "\<dots> = 2 powr real j * 2 powr of_int (float64_exponent x - 52)"
    by (rule powr_add)
  also have "(2 powr real j :: real) = 2 ^ j" by (rule powr_realpow) simp
  finally have p0: "2 powr of_int k = 2 ^ j * float64_ulp x"
    by (simp only: float64_ulp_def)
  define U where "U = float64_ulp x"
  have U: "0 < U" unfolding U_def by (rule float64_ulp_pos)
  have p: "2 powr of_int k = 2 ^ j * U" using p0 by (simp only: U_def)
  have xe: "x = of_int (n * 2 ^ j) * U" by (simp add: x_def p)
  then have "x / U = of_int (n * 2 ^ j)" using U by simp
  then have "round_half_even (x / U) = n * 2 ^ j"
    by (simp only: round_half_even_of_int)
  moreover have "float64_round x = of_int (round_half_even (x / U)) * U"
    using x0 by (simp add: float64_round_def U_def)
  ultimately have "float64_round x = of_int (n * 2 ^ j) * U" by (simp only:)
  with xe have "float64_round x = x" by (simp only:)
  then show ?thesis by (simp only: x_def)
qed

lemma float64_round_int:
  "\<bar>n\<bar> < 2 ^ 53 \<Longrightarrow> float64_round (of_int n) = of_int n"
  using float64_round_representable[of n 0] by simp

text \<open>
  \<open>TestLRUCache_Stats\<close> expects a rate between 74.9 and 75.1 after three hits and
  one miss. Every step is exact there, and the rate is 75.
\<close>

lemma test_stats_hit_rate: "HitRate (Stats test_stats_cache) = 75"
proof -
  have a: "float64_round 3 = 3" using float64_round_int[of 3] by simp
  have b: "float64_round 4 = 4" using float64_round_int[of 4] by simp
  have "float64_round (3 / 4) = 3 / 4"
    using float64_round_representable[of 3 "- 2"] by (simp add: powr_minus_divide)
  then have q: "float64_round (3 / 4) * 100 = 75" by simp
  have r: "float64_round 75 = 75" using float64_round_int[of 75] by simp
  show ?thesis
    by (simp add: Stats_HitRate test_stats_cache_counters float64_mul_def float64_div_def
          float64_of_uint64_def a b q r)
qed

end
